theory Spec2Isabelle
  imports Main "HOL-Library.Multiset"
begin

section \<open>Calendar dates\<close>

text \<open>
  The script works on values of Python's \<open>datetime.date\<close>. A date is represented here by
  its proleptic Gregorian ordinal (\<open>date.toordinal()\<close>): comparing two dates compares
  their ordinals, \<open>(b - a).days\<close> is the difference of the ordinals, and
  \<open>a + timedelta(days=d)\<close> adds \<open>d\<close> to the ordinal. The constructor \<open>date(y, m, d)\<close>
  follows the standard library: it raises \<open>ValueError\<close> outside \<open>MINYEAR..MAXYEAR\<close>, for
  a month outside 1..12 and for a day the month does not have.
\<close>

type_synonym date = int

datatype error = ValueError | IndexError

definition MINYEAR :: int where
  "MINYEAR = 1"

definition MAXYEAR :: int where
  "MAXYEAR = 9999"

definition is_leap :: "int \<Rightarrow> bool" where
  "is_leap year \<longleftrightarrow> year mod 4 = 0 \<and> (year mod 100 \<noteq> 0 \<or> year mod 400 = 0)"

definition days_before_year :: "int \<Rightarrow> int" where
  "days_before_year year =
     (let y = year - 1 in y * 365 + y div 4 - y div 100 + y div 400)"

definition DAYS_IN_MONTH :: "int list" where
  "DAYS_IN_MONTH = [31, 28, 31, 30, 31, 30, 31, 31, 30, 31, 30, 31]"

definition days_in_month :: "int \<Rightarrow> int \<Rightarrow> int" where
  "days_in_month year month =
     (if month = 2 \<and> is_leap year then 29 else DAYS_IN_MONTH ! nat (month - 1))"

definition days_before_month :: "int \<Rightarrow> int \<Rightarrow> int" where
  "days_before_month year month =
     sum_list (take (nat (month - 1)) DAYS_IN_MONTH)
       + (if month > 2 \<and> is_leap year then 1 else 0)"

definition ymd2ord :: "int \<Rightarrow> int \<Rightarrow> int \<Rightarrow> int" where
  "ymd2ord year month day = days_before_year year + days_before_month year month + day"

definition date_ymd :: "int \<Rightarrow> int \<Rightarrow> int \<Rightarrow> error + date" where
  "date_ymd year month day =
     (if \<not> (MINYEAR \<le> year \<and> year \<le> MAXYEAR) then Inl ValueError
      else if \<not> (1 \<le> month \<and> month \<le> 12) then Inl ValueError
      else if \<not> (1 \<le> day \<and> day \<le> days_in_month year month) then Inl ValueError
      else Inr (ymd2ord year month day))"

text \<open>
  Python's list indexing with an integer that may be negative: a negative index counts
  from the end, and an index outside the list raises \<open>IndexError\<close>.
\<close>

definition py_index :: "'a list \<Rightarrow> int \<Rightarrow> error + 'a" where
  "py_index xs k =
     (let n = int (length xs); k' = (if k < 0 then k + n else k)
      in if 0 \<le> k' \<and> k' < n then Inr (xs ! nat k') else Inl IndexError)"

section \<open>The loop over the entered ranges (lines 40-91)\<close>

text \<open>
  One row of \<open>trip_data\<close>. The label is the text of \<open>i + 1\<close>; the original stay is kept as
  the pair of dates it is printed from.
\<close>

record row =
  range_label :: nat
  original_stay :: "date \<times> date"
  stay_length :: int
  days_in_year :: int

text \<open>
  The variables the loop updates. \<open>range_errors\<close> records the calls of \<open>st.error\<close> in the
  \<open>end < start\<close> branch, by the range number shown in the message.
\<close>

record loop_state =
  trip_data :: "row list"
  valid_intervals :: "(date \<times> date) list"
  longest_single_stay :: int
  range_errors :: "nat list"

definition initial_state :: loop_state where
  "initial_state =
     \<lparr>trip_data = [], valid_intervals = [], longest_single_stay = 0, range_errors = []\<rparr>"

text \<open>The annual clip of lines 73-82, for an interval already known to be valid.\<close>

definition annual_clip :: "int \<Rightarrow> date \<Rightarrow> date \<Rightarrow> error + int" where
  "annual_clip target_year start endd =
     (case date_ymd target_year 1 1 of
        Inl err \<Rightarrow> Inl err
      | Inr year_start \<Rightarrow>
          (case date_ymd target_year 12 31 of
             Inl err \<Rightarrow> Inl err
           | Inr year_end \<Rightarrow>
               (let effective_start = max start year_start;
                    effective_end = min endd year_end
                in if effective_start > effective_end then Inr 0
                   else Inr (effective_end - effective_start + 1))))"

text \<open>The body of the \<open>for\<close> loop for range number \<open>i\<close> (counted from 0).\<close>

definition range_body :: "int \<Rightarrow> nat \<Rightarrow> date \<times> date \<Rightarrow> loop_state \<Rightarrow> error + loop_state" where
  "range_body target_year i r st =
     (case r of (start, endd) \<Rightarrow>
        if endd < start then
          Inr (st\<lparr>trip_data := trip_data st @
                      [\<lparr>range_label = i + 1, original_stay = (start, endd),
                        stay_length = 0, days_in_year = 0\<rparr>],
                  range_errors := range_errors st @ [i + 1]\<rparr>)
        else
          (let len = endd - start + 1 in
           case annual_clip target_year start endd of
             Inl err \<Rightarrow> Inl err
           | Inr diy \<Rightarrow>
               Inr (st\<lparr>trip_data := trip_data st @
                           [\<lparr>range_label = i + 1, original_stay = (start, endd),
                             stay_length = len, days_in_year = diy\<rparr>],
                       valid_intervals := valid_intervals st @ [(start, endd)],
                       longest_single_stay := max (longest_single_stay st) len\<rparr>)))"

fun ranges_loop :: "int \<Rightarrow> nat \<Rightarrow> (date \<times> date) list \<Rightarrow> loop_state \<Rightarrow> error + loop_state" where
  "ranges_loop target_year i [] st = Inr st"
| "ranges_loop target_year i (r # rs) st =
     (case range_body target_year i r st of
        Inl err \<Rightarrow> Inl err
      | Inr st' \<Rightarrow> ranges_loop target_year (Suc i) rs st')"

section \<open>The rolling 365-day window (lines 144-177)\<close>

text \<open>Lines 150-154: every day of every valid interval, in input order.\<close>

definition expand_days :: "(date \<times> date) list \<Rightarrow> date list" where
  "expand_days vi = concat (map (\<lambda>(s, e). map (\<lambda>d. s + d) [0..e - s]) vi)"

text \<open>Line 156, \<open>sorted(set(all_days))\<close>: the distinct days in ascending order.\<close>

definition sorted_set :: "date list \<Rightarrow> date list" where
  "sorted_set xs = sort (remdups xs)"

text \<open>The inner \<open>while\<close> of lines 167-168; it returns the new \<open>j\<close>.\<close>

function inner_while :: "date list \<Rightarrow> nat \<Rightarrow> nat \<Rightarrow> nat" where
  "inner_while all_days i j =
     (if j < length all_days \<and> all_days ! j - all_days ! i \<le> 364
      then inner_while all_days i (j + 1) else j)"
  by pat_completeness auto
termination
  by (relation "measure (\<lambda>(all_days, i, j). length all_days - j)") auto

text \<open>
  The outer \<open>while\<close> of lines 166-174 on the variables \<open>i\<close>, \<open>j\<close>, \<open>max_days_365\<close>,
  \<open>max_i\<close> and \<open>max_j\<close>; it returns the last three. \<open>window_size\<close> and \<open>max_j = j - 1\<close> are
  Python integers, so they are computed in \<open>int\<close>.
\<close>

function outer_while :: "date list \<Rightarrow> nat \<Rightarrow> nat \<Rightarrow> int \<Rightarrow> int \<Rightarrow> int \<Rightarrow> int \<times> int \<times> int" where
  "outer_while all_days i j max_days max_i max_j =
     (if i < length all_days then
        (let j' = inner_while all_days i j;
             window_size = int j' - int i
         in if window_size > max_days
            then outer_while all_days (i + 1) j' window_size (int i) (int j' - 1)
            else outer_while all_days (i + 1) j' max_days max_i max_j)
      else (max_days, max_i, max_j))"
  by pat_completeness auto
termination
  by (relation "measure (\<lambda>(all_days, i, j, max_days, max_i, max_j). length all_days - i)") auto

declare inner_while.simps [simp del]
declare outer_while.simps [simp del]

record rolling =
  max_days_365 :: int
  window_start :: "date option"
  window_end :: "date option"

definition no_window :: rolling where
  "no_window = \<lparr>max_days_365 = 0, window_start = None, window_end = None\<rparr>"

definition rolling_window :: "(date \<times> date) list \<Rightarrow> error + rolling" where
  "rolling_window vi =
     (if vi \<noteq> [] then
        (let all_days = sorted_set (expand_days vi) in
         if all_days \<noteq> [] then
           (case outer_while all_days 0 0 0 0 0 of
              (max_days, max_i, max_j) \<Rightarrow>
                (case py_index all_days max_i of
                   Inl err \<Rightarrow> Inl err
                 | Inr ws \<Rightarrow>
                     (case py_index all_days max_j of
                        Inl err \<Rightarrow> Inl err
                      | Inr we \<Rightarrow>
                          Inr \<lparr>max_days_365 = max_days,
                               window_start = Some ws, window_end = Some we\<rparr>)))
         else Inr no_window)
      else Inr no_window)"

section \<open>The whole computation\<close>

record analysis =
  ranges :: loop_state
  total_days :: int
  rolling_result :: rolling

definition compute :: "int \<Rightarrow> (date \<times> date) list \<Rightarrow> error + analysis" where
  "compute target_year rs =
     (case ranges_loop target_year 0 rs initial_state of
        Inl err \<Rightarrow> Inl err
      | Inr st \<Rightarrow>
          (let total = sum_list (map days_in_year (trip_data st)) in
           case rolling_window (valid_intervals st) of
             Inl err \<Rightarrow> Inl err
           | Inr rw \<Rightarrow> Inr \<lparr>ranges = st, total_days = total, rolling_result = rw\<rparr>))"

section \<open>Notions used in the statements\<close>

text \<open>The years the \<open>date\<close> constructor accepts.\<close>

definition year_ok :: "int \<Rightarrow> bool" where
  "year_ok y \<longleftrightarrow> MINYEAR \<le> y \<and> y \<le> MAXYEAR"

text \<open>A range passes the test of line 60 when its end is not before its start.\<close>

definition valid_range :: "date \<times> date \<Rightarrow> bool" where
  "valid_range r \<longleftrightarrow> \<not> snd r < fst r"

text \<open>
  The annual contribution of a valid interval in the words of the specification (4.2):
  clamp the interval to the year and count the days inclusively, 0 when the clamp is empty.
\<close>

definition clip_days :: "int \<Rightarrow> date \<times> date \<Rightarrow> int" where
  "clip_days y r =
     (let effective_start = max (fst r) (ymd2ord y 1 1);
          effective_end = min (snd r) (ymd2ord y 12 31)
      in if effective_start > effective_end then 0
         else effective_end - effective_start + 1)"

text \<open>
  The row of one range and the final loop state in closed form; \<open>ranges_loop_eq\<close> proves
  them equal to what the loop computes.
\<close>

definition row_of :: "int \<Rightarrow> nat \<Rightarrow> date \<times> date \<Rightarrow> row" where
  "row_of y i r =
     \<lparr>range_label = i + 1, original_stay = r,
      stay_length = (if valid_range r then snd r - fst r + 1 else 0),
      days_in_year = (if valid_range r then clip_days y r else 0)\<rparr>"

definition loop_result :: "int \<Rightarrow> nat \<Rightarrow> (date \<times> date) list \<Rightarrow> loop_state \<Rightarrow> loop_state" where
  "loop_result y i rs st =
     \<lparr>trip_data = trip_data st @ map (\<lambda>(k, r). row_of y k r) (enumerate i rs),
      valid_intervals = valid_intervals st @ filter valid_range rs,
      longest_single_stay =
        foldl max (longest_single_stay st) (map (\<lambda>r. snd r - fst r + 1) (filter valid_range rs)),
      range_errors = range_errors st @
        map (\<lambda>(k, r). k + 1) (filter (\<lambda>(k, r). \<not> valid_range r) (enumerate i rs))\<rparr>"

text \<open>
  The covered days: every day of every range. A range whose end is before its start has no
  day (\<open>{s..e}\<close> is empty), so these are the days of the valid intervals.
\<close>

definition covered :: "(date \<times> date) list \<Rightarrow> date set" where
  "covered rs = (\<Union>r\<in>set rs. {fst r..snd r})"

text \<open>
  The invariant of the scan: the recorded window is a pair of indices within 364 days of
  each other whose width is the recorded maximum, and the recorded maximum bounds every
  admissible pair whose left index has been passed.
\<close>

definition window_ok :: "date list \<Rightarrow> int \<Rightarrow> int \<Rightarrow> int \<Rightarrow> bool" where
  "window_ok D md mi mj \<longleftrightarrow>
     0 \<le> mi \<and> mi \<le> mj \<and> mj < int (length D) \<and> D ! nat mj - D ! nat mi \<le> 364 \<and> md = mj - mi + 1"

definition bounds_from :: "date list \<Rightarrow> nat \<Rightarrow> int \<Rightarrow> bool" where
  "bounds_from D i md \<longleftrightarrow>
     (\<forall>i0 j0. i0 < i \<and> i0 \<le> j0 \<and> j0 < length D \<and> D ! j0 - D ! i0 \<le> 364 \<longrightarrow> int (j0 - i0 + 1) \<le> md)"

text \<open>Lines 158-177 as a function of \<open>all_days\<close> alone.\<close>

definition rolling_of_days :: "date list \<Rightarrow> error + rolling" where
  "rolling_of_days all_days =
     (if all_days \<noteq> [] then
        (case outer_while all_days 0 0 0 0 0 of
           (max_days, max_i, max_j) \<Rightarrow>
             (case py_index all_days max_i of
                Inl err \<Rightarrow> Inl err
              | Inr ws \<Rightarrow>
                  (case py_index all_days max_j of
                     Inl err \<Rightarrow> Inl err
                   | Inr we \<Rightarrow>
                       Inr \<lparr>max_days_365 = max_days,
                            window_start = Some ws, window_end = Some we\<rparr>)))
      else Inr no_window)"

text \<open>
  The reference of the specification (4.4): \<open>D\<close> is the ascending sequence of the
  covered days without duplicates, and the reference maximum is the largest \<open>j - i + 1\<close>
  over the pairs \<open>0 \<le> i \<le> j < n\<close> with \<open>D[j] - D[i] \<le> 364\<close>, 0 when there is no
  covered day.
\<close>

definition covered_day_sequence :: "(date \<times> date) list \<Rightarrow> date list" where
  "covered_day_sequence rs = sorted_list_of_set (covered rs)"

definition reference_max_days :: "date list \<Rightarrow> int" where
  "reference_max_days D =
     (if D = [] then 0
      else Max ((\<lambda>(i, j). int (j - i + 1)) `
                  {(i, j) \<in> {0..<length D} \<times> {0..<length D}. i \<le> j \<and> D ! j - D ! i \<le> 364}))"

section \<open>The loop in closed form\<close>

lemma date_ymd_jan1: "date_ymd y 1 1 = (if year_ok y then Inr (ymd2ord y 1 1) else Inl ValueError)"
  by (simp add: date_ymd_def year_ok_def days_in_month_def DAYS_IN_MONTH_def)

lemma date_ymd_dec31: "date_ymd y 12 31 = (if year_ok y then Inr (ymd2ord y 12 31) else Inl ValueError)"
  by (simp add: date_ymd_def year_ok_def days_in_month_def DAYS_IN_MONTH_def)

lemma annual_clip_eq:
  "annual_clip y s e = (if year_ok y then Inr (clip_days y (s, e)) else Inl ValueError)"
  by (simp add: annual_clip_def date_ymd_jan1 date_ymd_dec31 clip_days_def Let_def)

lemma range_body_invalid:
  "\<not> valid_range r \<Longrightarrow>
   range_body y i r st =
     Inr (st\<lparr>trip_data := trip_data st @ [row_of y i r],
             range_errors := range_errors st @ [i + 1]\<rparr>)"
  by (cases r) (simp add: range_body_def valid_range_def row_of_def)

lemma range_body_valid:
  "valid_range r \<Longrightarrow> year_ok y \<Longrightarrow>
   range_body y i r st =
     Inr (st\<lparr>trip_data := trip_data st @ [row_of y i r],
             valid_intervals := valid_intervals st @ [r],
             longest_single_stay := max (longest_single_stay st) (snd r - fst r + 1)\<rparr>)"
  by (cases r) (simp add: range_body_def valid_range_def row_of_def annual_clip_eq Let_def)

lemma range_body_valid_bad_year:
  "valid_range r \<Longrightarrow> \<not> year_ok y \<Longrightarrow> range_body y i r st = Inl ValueError"
  by (cases r) (simp add: range_body_def valid_range_def annual_clip_eq Let_def)

lemma ranges_loop_eq:
  "ranges_loop y i rs st =
     (if year_ok y \<or> filter valid_range rs = [] then Inr (loop_result y i rs st)
      else Inl ValueError)"
proof (induction rs arbitrary: i st)
  case Nil
  show ?case by (simp add: loop_result_def)
next
  case (Cons r rs)
  show ?case
  proof (cases "valid_range r")
    case False
    then show ?thesis
      by (simp add: range_body_invalid Cons.IH loop_result_def)
  next
    case True
    show ?thesis
    proof (cases "year_ok y")
      case True
      with \<open>valid_range r\<close> show ?thesis
        by (simp add: range_body_valid Cons.IH loop_result_def)
    next
      case False
      with \<open>valid_range r\<close> show ?thesis
        by (simp add: range_body_valid_bad_year)
    qed
  qed
qed

section \<open>The scanned day sequence\<close>

lemma set_expand_days: "set (expand_days vi) = covered vi"
  by (auto simp: expand_days_def covered_def image_iff)

lemma sorted_sorted_set: "sorted (sorted_set xs)"
  by (simp add: sorted_set_def)

lemma distinct_sorted_set: "distinct (sorted_set xs)"
  by (simp add: sorted_set_def)

lemma set_sorted_set: "set (sorted_set xs) = set xs"
  by (simp add: sorted_set_def)

lemma sorted_set_eq: "sorted_set xs = sorted_list_of_set (set xs)"
  by (simp add: sorted_set_def sorted_list_of_set_sort_remdups)

lemma covered_filter: "covered (filter valid_range rs) = covered rs"
  by (auto simp: covered_def valid_range_def)

section \<open>The two-pointer scan\<close>

lemma inner_while_spec:
  assumes "i < length D" "i \<le> j" "j \<le> length D"
    and "\<forall>k. i \<le> k \<and> k < j \<longrightarrow> D ! k - D ! i \<le> 364"
  shows "j \<le> inner_while D i j \<and> i < inner_while D i j \<and> inner_while D i j \<le> length D
     \<and> (\<forall>k. i \<le> k \<and> k < inner_while D i j \<longrightarrow> D ! k - D ! i \<le> 364)
     \<and> (inner_while D i j < length D \<longrightarrow> D ! (inner_while D i j) - D ! i > 364)"
  using assms
proof (induction D i j rule: inner_while.induct)
  case (1 D i j)
  show ?case
  proof (cases "j < length D \<and> D ! j - D ! i \<le> 364")
    case True
    have step: "\<forall>k. i \<le> k \<and> k < j + 1 \<longrightarrow> D ! k - D ! i \<le> 364"
      using True "1.prems"(4) by (metis Suc_eq_plus1 less_Suc_eq)
    have eq: "inner_while D i j = inner_while D i (j + 1)"
      using True by (subst inner_while.simps) simp
    from "1.IH"[OF True "1.prems"(1) _ _ step] "1.prems" True
    show ?thesis unfolding eq by auto
  next
    case False
    have eq: "inner_while D i j = j"
      using False by (subst inner_while.simps) auto
    have "i < j"
    proof (rule ccontr)
      assume "\<not> i < j"
      with "1.prems" have "j = i" by simp
      with False "1.prems" show False by simp
    qed
    with False "1.prems" show ?thesis unfolding eq by auto
  qed
qed

lemma outer_while_spec:
  assumes "sorted D" "i \<le> j" "j \<le> length D"
    and "\<forall>k. i \<le> k \<and> k < j \<longrightarrow> D ! k - D ! i \<le> 364"
    and "(i = 0 \<and> md = 0 \<and> mi = 0 \<and> mj = 0) \<or> window_ok D md mi mj"
    and "bounds_from D i md"
    and "outer_while D i j md mi mj = (md', mi', mj')"
  shows "((D = [] \<and> md' = 0 \<and> mi' = 0 \<and> mj' = 0) \<or> window_ok D md' mi' mj')
       \<and> bounds_from D (length D) md'"
  using assms
proof (induction D i j md mi mj rule: outer_while.induct)
  case (1 D i j md mi mj)
  show ?case
  proof (cases "i < length D")
    case False
    with "1.prems" have "i = length D" by simp
    moreover from False "1.prems"(7) have "md' = md" "mi' = mi" "mj' = mj"
      by (simp_all add: outer_while.simps[of D i j])
    ultimately show ?thesis using "1.prems"(5,6) by auto
  next
    case True
    define j' where "j' = inner_while D i j"
    define ws where "ws = int j' - int i"
    from inner_while_spec[OF True "1.prems"(2,3,4)]
    have j': "j \<le> j'" "i < j'" "j' \<le> length D"
      "\<forall>k. i \<le> k \<and> k < j' \<longrightarrow> D ! k - D ! i \<le> 364"
      "j' < length D \<longrightarrow> D ! j' - D ! i > 364"
      unfolding j'_def by auto
    have md_nonneg: "0 \<le> md"
      using "1.prems"(5) by (auto simp: window_ok_def)
    have next_inv: "\<forall>k. i + 1 \<le> k \<and> k < j' \<longrightarrow> D ! k - D ! (i + 1) \<le> 364"
    proof (intro allI impI)
      fix k assume k: "i + 1 \<le> k \<and> k < j'"
      then have "D ! k - D ! i \<le> 364" using j'(4) by simp
      moreover have "D ! i \<le> D ! (i + 1)"
        using \<open>sorted D\<close> k j'(3) by (intro sorted_nth_mono) auto
      ultimately show "D ! k - D ! (i + 1) \<le> 364" by linarith
    qed
    have this_i: "\<forall>j0. i \<le> j0 \<and> j0 < length D \<and> D ! j0 - D ! i \<le> 364 \<longrightarrow> int (j0 - i + 1) \<le> ws"
    proof (intro allI impI)
      fix j0 assume a: "i \<le> j0 \<and> j0 < length D \<and> D ! j0 - D ! i \<le> 364"
      have "j0 < j'"
      proof (rule ccontr)
        assume "\<not> j0 < j'"
        then have le: "j' \<le> j0" by simp
        with a have "j' < length D" by simp
        with j'(5) have "D ! j' - D ! i > 364" by simp
        moreover have "D ! j' \<le> D ! j0"
          using \<open>sorted D\<close> le a by (intro sorted_nth_mono) auto
        ultimately show False using a by linarith
      qed
      then show "int (j0 - i + 1) \<le> ws" using a unfolding ws_def by simp
    qed
    show ?thesis
    proof (cases "ws > md")
      case gt: True
      have eq: "outer_while D i j md mi mj = outer_while D (i + 1) j' ws (int i) (int j' - 1)"
        using True gt by (subst outer_while.simps) (simp add: j'_def ws_def Let_def)
      have wok: "window_ok D ws (int i) (int j' - 1)"
        using j' True unfolding window_ok_def ws_def
        by (auto simp: nat_diff_distrib' intro!: j'(4)[rule_format])
      have bnd: "bounds_from D (i + 1) ws"
        unfolding bounds_from_def
      proof (intro allI impI)
        fix i0 j0 assume a: "i0 < i + 1 \<and> i0 \<le> j0 \<and> j0 < length D \<and> D ! j0 - D ! i0 \<le> 364"
        show "int (j0 - i0 + 1) \<le> ws"
        proof (cases "i0 = i")
          case True with a this_i show ?thesis by simp
        next
          case False
          with a have "i0 < i" by simp
          with a "1.prems"(6) have "int (j0 - i0 + 1) \<le> md" unfolding bounds_from_def by blast
          with gt show ?thesis by simp
        qed
      qed
      from "1.IH"(1)[OF True j'_def ws_def gt \<open>sorted D\<close> _ j'(3) next_inv _ bnd]
        "1.prems"(7) j'(2) wok eq
      show ?thesis by simp
    next
      case ngt: False
      have eq: "outer_while D i j md mi mj = outer_while D (i + 1) j' md mi mj"
        using True ngt by (subst outer_while.simps) (simp add: j'_def ws_def Let_def)
      have wok: "window_ok D md mi mj"
        using "1.prems"(5) ngt j'(2) unfolding ws_def by auto
      have bnd: "bounds_from D (i + 1) md"
        unfolding bounds_from_def
      proof (intro allI impI)
        fix i0 j0 assume a: "i0 < i + 1 \<and> i0 \<le> j0 \<and> j0 < length D \<and> D ! j0 - D ! i0 \<le> 364"
        show "int (j0 - i0 + 1) \<le> md"
        proof (cases "i0 = i")
          case True with a this_i ngt show ?thesis by force
        next
          case False
          with a have "i0 < i" by simp
          with a "1.prems"(6) show ?thesis unfolding bounds_from_def by blast
        qed
      qed
      from "1.IH"(2)[OF True j'_def ws_def ngt \<open>sorted D\<close> _ j'(3) next_inv _ bnd]
        "1.prems"(7) j'(2) wok eq
      show ?thesis by simp
    qed
  qed
qed

lemma finite_covered: "finite (covered rs)"
  by (simp add: covered_def)

lemma all_days_eq: "sorted_set (expand_days vi) = covered_day_sequence vi"
  by (simp add: sorted_set_eq set_expand_days covered_day_sequence_def)

lemma rolling_window_eq: "rolling_window vi = rolling_of_days (covered_day_sequence vi)"
proof (cases "vi = []")
  case True
  then show ?thesis
    by (simp add: rolling_window_def rolling_of_days_def covered_day_sequence_def covered_def)
next
  case False
  then show ?thesis
    by (simp add: rolling_window_def rolling_of_days_def all_days_eq Let_def)
qed

lemma py_index_nonneg: "0 \<le> k \<Longrightarrow> k < int (length xs) \<Longrightarrow> py_index xs k = Inr (xs ! nat k)"
  by (simp add: py_index_def Let_def)

lemma rolling_of_days_spec:
  assumes "sorted D" "D \<noteq> []"
  shows "\<exists>md mi mj. rolling_of_days D =
            Inr \<lparr>max_days_365 = md, window_start = Some (D ! nat mi), window_end = Some (D ! nat mj)\<rparr>
          \<and> window_ok D md mi mj \<and> bounds_from D (length D) md"
proof -
  obtain md mi mj where ow: "outer_while D 0 0 0 0 0 = (md, mi, mj)"
    by (metis prod_cases3)
  have "bounds_from D 0 0" by (simp add: bounds_from_def)
  from outer_while_spec[OF assms(1) _ _ _ _ this ow] assms(2)
  have wok: "window_ok D md mi mj" and bnd: "bounds_from D (length D) md" by auto
  from wok have "0 \<le> mi" "mi < int (length D)" "0 \<le> mj" "mj < int (length D)"
    by (auto simp: window_ok_def)
  then have "py_index D mi = Inr (D ! nat mi)" "py_index D mj = Inr (D ! nat mj)"
    by (simp_all add: py_index_nonneg)
  with ow assms(2) have "rolling_of_days D =
      Inr \<lparr>max_days_365 = md, window_start = Some (D ! nat mi), window_end = Some (D ! nat mj)\<rparr>"
    by (simp add: rolling_of_days_def)
  with wok bnd show ?thesis by blast
qed

lemma rolling_of_days_Nil: "rolling_of_days [] = Inr no_window"
  by (simp add: rolling_of_days_def)

text \<open>Indices and days of a strictly sorted sequence.\<close>

lemma nth_less_iff:
  assumes "sorted D" "distinct D" "i < length D" "j < length D"
  shows "D ! i < D ! j \<longleftrightarrow> i < j"
proof -
  have ss: "sorted_wrt (<) D" using assms(1,2) by (simp add: strict_sorted_iff)
  show ?thesis
  proof
    assume "i < j" then show "D ! i < D ! j" using ss assms(4) by (simp add: sorted_wrt_nth_less)
  next
    assume lt: "D ! i < D ! j"
    show "i < j"
    proof (rule ccontr)
      assume "\<not> i < j"
      then have "j \<le> i" by simp
      then have "D ! j \<le> D ! i" using assms(1,3) by (simp add: sorted_nth_mono)
      with lt show False by simp
    qed
  qed
qed

lemma nth_le_iff:
  assumes "sorted D" "distinct D" "i < length D" "j < length D"
  shows "D ! i \<le> D ! j \<longleftrightarrow> i \<le> j"
  using nth_less_iff[OF assms(1,2,4,3)] by (simp add: not_less[symmetric])

lemma window_days:
  assumes "sorted D" "distinct D" "i \<le> j" "j < length D"
  shows "set D \<inter> {D ! i..D ! j} = (\<lambda>k. D ! k) ` {i..j}"
proof (intro set_eqI iffI)
  fix x assume "x \<in> set D \<inter> {D ! i..D ! j}"
  then obtain k where k: "k < length D" "x = D ! k" "D ! i \<le> D ! k" "D ! k \<le> D ! j"
    by (auto simp: in_set_conv_nth)
  with assms have "i \<le> k" "k \<le> j" by (simp_all add: nth_le_iff)
  with k show "x \<in> (\<lambda>k. D ! k) ` {i..j}" by auto
next
  fix x assume "x \<in> (\<lambda>k. D ! k) ` {i..j}"
  then obtain k where k: "i \<le> k" "k \<le> j" "x = D ! k" by auto
  with assms have "k < length D" "D ! i \<le> D ! k" "D ! k \<le> D ! j" by (simp_all add: nth_le_iff)
  with k show "x \<in> set D \<inter> {D ! i..D ! j}" by simp
qed

lemma card_window:
  assumes "sorted D" "distinct D" "i \<le> j" "j < length D"
  shows "card (set D \<inter> {D ! i..D ! j}) = j - i + 1"
proof -
  have "inj_on (\<lambda>k. D ! k) {i..j}"
    using assms(2,4) by (auto simp: inj_on_def nth_eq_iff_index_eq)
  then have "card ((\<lambda>k. D ! k) ` {i..j}) = card {i..j}" by (rule card_image)
  with assms show ?thesis by (simp add: window_days)
qed

section \<open>The whole computation in closed form\<close>

lemma sorted_covered_day_sequence: "sorted (covered_day_sequence rs)"
  by (simp add: covered_day_sequence_def)

lemma distinct_covered_day_sequence: "distinct (covered_day_sequence rs)"
  by (simp add: covered_day_sequence_def)

lemma set_covered_day_sequence: "set (covered_day_sequence rs) = covered rs"
  by (simp add: covered_day_sequence_def finite_covered)

lemma covered_day_sequence_filter:
  "covered_day_sequence (filter valid_range rs) = covered_day_sequence rs"
  by (simp add: covered_day_sequence_def covered_filter)

lemma rolling_of_days_total: "\<exists>rw. rolling_of_days (covered_day_sequence rs) = Inr rw"
proof (cases "covered_day_sequence rs = []")
  case True
  then show ?thesis by (simp add: rolling_of_days_Nil)
next
  case False
  from rolling_of_days_spec[OF sorted_covered_day_sequence False] show ?thesis by blast
qed

lemma loop_result_initial:
  "trip_data (loop_result y 0 rs initial_state) = map (\<lambda>(k, r). row_of y k r) (enumerate 0 rs)"
  "valid_intervals (loop_result y 0 rs initial_state) = filter valid_range rs"
  "longest_single_stay (loop_result y 0 rs initial_state) =
     foldl max 0 (map (\<lambda>r. snd r - fst r + 1) (filter valid_range rs))"
  "range_errors (loop_result y 0 rs initial_state) =
     map (\<lambda>(k, r). k + 1) (filter (\<lambda>(k, r). \<not> valid_range r) (enumerate 0 rs))"
  by (simp_all add: loop_result_def initial_state_def)

lemma compute_eq:
  "compute y rs =
     (if year_ok y \<or> filter valid_range rs = [] then
        (case rolling_of_days (covered_day_sequence rs) of
           Inl err \<Rightarrow> Inl err
         | Inr rw \<Rightarrow>
             Inr \<lparr>ranges = loop_result y 0 rs initial_state,
                  total_days = sum_list (map days_in_year (trip_data (loop_result y 0 rs initial_state))),
                  rolling_result = rw\<rparr>)
      else Inl ValueError)"
  by (simp add: compute_def ranges_loop_eq rolling_window_eq loop_result_initial(2)
      covered_day_sequence_filter Let_def)

lemma compute_Inr_iff:
  "(\<exists>r. compute y rs = Inr r) \<longleftrightarrow> year_ok y \<or> filter valid_range rs = []"
  using rolling_of_days_total[of rs] by (auto simp: compute_eq)

lemma compute_Inr_D:
  assumes "compute y rs = Inr r"
  shows "ranges r = loop_result y 0 rs initial_state"
    and "total_days r = sum_list (map days_in_year (trip_data (ranges r)))"
    and "rolling_of_days (covered_day_sequence rs) = Inr (rolling_result r)"
    and "year_ok y \<or> filter valid_range rs = []"
  using assms by (auto simp: compute_eq split: if_splits sum.splits)

lemma days_in_year_rows:
  "map days_in_year (map (\<lambda>(k, r). row_of y k r) (enumerate i rs)) =
     map (\<lambda>r. if valid_range r then clip_days y r else 0) rs"
  by (induction rs arbitrary: i) (simp_all add: row_of_def)

lemma sum_list_if_filter:
  "sum_list (map (\<lambda>r. if P r then f r else (0::int)) rs) = sum_list (map f (filter P rs))"
  by (induction rs) simp_all

lemma total_days_eq:
  assumes "compute y rs = Inr r"
  shows "total_days r = sum_list (map (clip_days y) (filter valid_range rs))"
  using compute_Inr_D(1,2)[OF assms]
  by (simp add: loop_result_initial(1) days_in_year_rows sum_list_if_filter del: map_map)

lemma trip_data_nth:
  assumes "compute y rs = Inr r" "k < length rs"
  shows "trip_data (ranges r) ! k = row_of y k (rs ! k)"
  using compute_Inr_D(1)[OF assms(1)] assms(2)
  by (simp add: loop_result_initial(1) nth_enumerate_eq)

lemma trip_data_length:
  assumes "compute y rs = Inr r"
  shows "length (trip_data (ranges r)) = length rs"
  using compute_Inr_D(1)[OF assms(1)] by (simp add: loop_result_initial(1))

section \<open>Concrete years and dates\<close>

lemma year_ok_2024: "year_ok 2024"
  by (simp add: year_ok_def MINYEAR_def MAXYEAR_def)

lemma year_ok_2025: "year_ok 2025"
  by (simp add: year_ok_def MINYEAR_def MAXYEAR_def)

lemma year_2024: "ymd2ord 2024 1 1 = 738886" "ymd2ord 2024 12 31 = 739251"
  by (simp_all add: ymd2ord_def days_before_year_def days_before_month_def is_leap_def DAYS_IN_MONTH_def)

lemma year_2025: "ymd2ord 2025 1 1 = 739252" "ymd2ord 2025 12 31 = 739616"
  by (simp_all add: ymd2ord_def days_before_year_def days_before_month_def is_leap_def DAYS_IN_MONTH_def)

lemma scenario_dates: "date_ymd 2024 12 20 = Inr 739240" "date_ymd 2025 1 10 = Inr 739261"
  by (simp_all add: date_ymd_def MINYEAR_def MAXYEAR_def days_in_month_def ymd2ord_def
      days_before_year_def days_before_month_def is_leap_def DAYS_IN_MONTH_def)

lemma compute_single_row:
  assumes "compute y [p] = Inr r"
  shows "trip_data (ranges r) = [row_of y 0 p]"
  using compute_Inr_D(1)[OF assms] by (simp add: loop_result_initial(1))

section \<open>Aggregates as functions of the input\<close>

lemma covered_day_sequence_no_valid:
  assumes "filter valid_range rs = []"
  shows "covered_day_sequence rs = []"
proof -
  have "covered (filter valid_range rs) = {}" using assms by (simp add: covered_def)
  then show ?thesis by (simp add: covered_day_sequence_def covered_filter)
qed

lemma foldl_max_Max: "foldl max (a::int) xs = Max (set (a # xs))"
proof -
  have "(\<lambda>x s. max s x) = (max :: int \<Rightarrow> int \<Rightarrow> int)"
    by (intro ext) (simp add: max.commute)
  then have "foldl max a xs = fold max xs a"
    by (simp add: foldl_conv_fold)
  then show ?thesis by (simp only: Max.set_eq_fold)
qed

lemma longest_eq:
  assumes "compute y rs = Inr r"
  shows "longest_single_stay (ranges r) =
           Max (insert 0 ((\<lambda>r. snd r - fst r + 1) ` {r \<in> set rs. valid_range r}))"
  by (simp add: compute_Inr_D(1)[OF assms] loop_result_initial(3) foldl_max_Max)

lemma covered_day_sequence_cong:
  "covered rs = covered rs' \<Longrightarrow> covered_day_sequence rs = covered_day_sequence rs'"
  by (simp add: covered_day_sequence_def)

lemma rolling_result_cong:
  assumes "compute y rs = Inr r" "compute y' rs' = Inr r'" "covered rs = covered rs'"
  shows "rolling_result r = rolling_result r'"
  using compute_Inr_D(3)[OF assms(1)] compute_Inr_D(3)[OF assms(2)]
    covered_day_sequence_cong[OF assms(3)] by simp

lemma covered_set_cong: "set rs = set rs' \<Longrightarrow> covered rs = covered rs'"
  by (simp add: covered_def)

lemma total_mset:
  assumes "mset rs = mset rs'"
  shows "sum_list (map f (filter P rs)) = (sum_list (map f (filter P rs')) :: int)"
proof -
  have "mset (map f (filter P rs)) = mset (map f (filter P rs'))"
    using assms by (simp only: mset_map mset_filter)
  then show ?thesis by (metis sum_mset_sum_list)
qed

lemma set_range_errors:
  assumes "compute y rs = Inr r"
  shows "set (range_errors (ranges r)) = {Suc k | k. k < length rs \<and> \<not> valid_range (rs ! k)}"
proof -
  have "set (range_errors (ranges r)) =
      (\<lambda>(k, r). Suc k) ` {p \<in> set (enumerate 0 rs). \<not> valid_range (snd p)}"
    by (auto simp: compute_Inr_D(1)[OF assms] loop_result_initial(4))
  also have "\<dots> = {Suc k | k. k < length rs \<and> \<not> valid_range (rs ! k)}"
    by (auto simp: in_set_enumerate_eq image_iff)
  finally show ?thesis .
qed

section \<open>The rolling result in terms of the covered days\<close>

lemma rolling_index_spec:
  assumes "compute y rs = Inr r" and "covered rs \<noteq> {}"
  defines "D \<equiv> covered_day_sequence rs"
  shows "\<exists>i j. i \<le> j \<and> j < length D \<and> D ! j - D ! i \<le> 364
           \<and> rolling_result r = \<lparr>max_days_365 = int (j - i + 1),
                 window_start = Some (D ! i), window_end = Some (D ! j)\<rparr>
           \<and> bounds_from D (length D) (int (j - i + 1))"
proof -
  have ne: "D \<noteq> []"
    using assms(2) set_covered_day_sequence[of rs] unfolding D_def by auto
  from rolling_of_days_spec[OF sorted_covered_day_sequence ne[unfolded D_def]]
    compute_Inr_D(3)[OF assms(1)]
  obtain md mi mj where
    rr: "rolling_result r = \<lparr>max_days_365 = md, window_start = Some (D ! nat mi),
            window_end = Some (D ! nat mj)\<rparr>"
    and wok: "window_ok D md mi mj" and bnd: "bounds_from D (length D) md"
    unfolding D_def by auto
  from wok have "nat mi \<le> nat mj" "nat mj < length D" "D ! nat mj - D ! nat mi \<le> 364"
    "md = int (nat mj - nat mi + 1)"
    by (auto simp: window_ok_def)
  with rr bnd show ?thesis by blast
qed

lemma rolling_set_spec:
  assumes "compute y rs = Inr r" and "covered rs \<noteq> {}"
  shows "\<exists>ws we. rolling_result r =
             \<lparr>max_days_365 = int (card (covered rs \<inter> {ws..we})),
              window_start = Some ws, window_end = Some we\<rparr>
           \<and> ws \<in> covered rs \<and> we \<in> covered rs \<and> ws \<le> we \<and> we - ws \<le> 364
           \<and> (\<forall>a b. a \<in> covered rs \<and> b \<in> covered rs \<and> a \<le> b \<and> b - a \<le> 364 \<longrightarrow>
                  int (card (covered rs \<inter> {a..b})) \<le> int (card (covered rs \<inter> {ws..we})))"
proof -
  define D where "D = covered_day_sequence rs"
  have sD: "sorted D" and dD: "distinct D" and setD: "set D = covered rs"
    unfolding D_def
    by (rule sorted_covered_day_sequence, rule distinct_covered_day_sequence,
        rule set_covered_day_sequence)
  from rolling_index_spec[OF assms] obtain i j where
    ij: "i \<le> j" "j < length D" "D ! j - D ! i \<le> 364"
    and rr: "rolling_result r = \<lparr>max_days_365 = int (j - i + 1),
                 window_start = Some (D ! i), window_end = Some (D ! j)\<rparr>"
    and bnd: "bounds_from D (length D) (int (j - i + 1))"
    unfolding D_def by blast
  have cw: "card (covered rs \<inter> {D ! i..D ! j}) = j - i + 1"
    using card_window[OF sD dD ij(1,2)] by (simp add: setD)
  have mem: "D ! i \<in> covered rs" "D ! j \<in> covered rs"
    using ij setD nth_mem[of i D] nth_mem[of j D] by auto
  have le: "D ! i \<le> D ! j"
    using sD ij by (simp add: sorted_nth_mono)
  have ub: "int (card (covered rs \<inter> {a..b})) \<le> int (card (covered rs \<inter> {D ! i..D ! j}))"
    if "a \<in> covered rs" "b \<in> covered rs" "a \<le> b" "b - a \<le> 364" for a b
  proof -
    from that(1,2) obtain i0 j0 where i0: "i0 < length D" "D ! i0 = a"
      and j0: "j0 < length D" "D ! j0 = b"
      unfolding setD[symmetric] in_set_conv_nth by blast
    from that(3) have "i0 \<le> j0"
      using nth_le_iff[OF sD dD i0(1) j0(1)] i0 j0 by simp
    with bnd i0 j0 that(4) have "int (j0 - i0 + 1) \<le> int (j - i + 1)"
      unfolding bounds_from_def by blast
    moreover have "card (covered rs \<inter> {a..b}) = j0 - i0 + 1"
      using card_window[OF sD dD \<open>i0 \<le> j0\<close> j0(1)] i0 j0 by (simp add: setD)
    ultimately show ?thesis using cw by simp
  qed
  show ?thesis
    using rr cw mem le ij(3) ub
    by (intro exI[of _ "D ! i"] exI[of _ "D ! j"]) simp
qed

lemma covered_nonempty:
  assumes "p \<in> set rs" "fst p \<le> snd p"
  shows "fst p \<in> covered rs"
  using assms by (auto simp: covered_def)

lemma code_all_days:
  assumes "compute y rs = Inr r"
  shows "sorted_set (expand_days (valid_intervals (ranges r))) = covered_day_sequence rs"
  by (simp add: compute_Inr_D(1)[OF assms] loop_result_initial(2) all_days_eq
      covered_day_sequence_filter)

lemma rolling_no_days:
  assumes "compute y rs = Inr r" and "covered rs = {}"
  shows "rolling_result r = no_window"
proof -
  have "covered_day_sequence rs = []"
    using assms(2) by (simp add: covered_day_sequence_def)
  with compute_Inr_D(3)[OF assms(1)] show ?thesis by (simp add: rolling_of_days_Nil)
qed

lemma max_days_bounds:
  assumes "compute y rs = Inr r"
  shows "0 \<le> max_days_365 (rolling_result r)"
    and "max_days_365 (rolling_result r) \<le> 365"
    and "max_days_365 (rolling_result r) \<le> int (card (covered rs))"
proof -
  have "0 \<le> max_days_365 (rolling_result r) \<and> max_days_365 (rolling_result r) \<le> 365
      \<and> max_days_365 (rolling_result r) \<le> int (card (covered rs))"
  proof (cases "covered rs = {}")
    case True
    from rolling_no_days[OF assms True] show ?thesis by (simp add: no_window_def)
  next
    case False
    from rolling_set_spec[OF assms False] obtain ws we where
      rr: "max_days_365 (rolling_result r) = int (card (covered rs \<inter> {ws..we}))"
      and w: "ws \<le> we" "we - ws \<le> 364"
      by force
    have "card (covered rs \<inter> {ws..we}) \<le> card {ws..we}"
      by (intro card_mono) auto
    moreover have "card (covered rs \<inter> {ws..we}) \<le> card (covered rs)"
      by (intro card_mono) (auto simp: finite_covered)
    ultimately show ?thesis using rr w by simp
  qed
  then show "0 \<le> max_days_365 (rolling_result r)"
    and "max_days_365 (rolling_result r) \<le> 365"
    and "max_days_365 (rolling_result r) \<le> int (card (covered rs))"
    by simp_all
qed

lemma clip_days_mono:
  assumes "s \<le> e"
  shows "clip_days y (s, e) \<le> clip_days y (s, e + 1)"
  using assms by (auto simp: clip_days_def Let_def min_def max_def)

lemma Max_insert0_mono:
  assumes "finite A" "finite B" "\<forall>a \<in> A. \<exists>b \<in> B. a \<le> b"
  shows "Max (insert (0::int) A) \<le> Max (insert 0 B)"
proof -
  have "a \<le> Max (insert 0 B)" if "a \<in> insert 0 A" for a
  proof (cases "a = 0")
    case True
    then show ?thesis using assms(2) by simp
  next
    case False
    with that assms(3) obtain b where "b \<in> B" "a \<le> b" by auto
    moreover from \<open>b \<in> B\<close> have "b \<le> Max (insert 0 B)" using assms(2) by simp
    ultimately show ?thesis by simp
  qed
  then show ?thesis using assms(1) by (intro Max.boundedI) auto
qed

lemma max_days_mono:
  assumes "compute y rs = Inr r" "compute y' rs' = Inr r'" "covered rs \<subseteq> covered rs'"
  shows "max_days_365 (rolling_result r) \<le> max_days_365 (rolling_result r')"
proof (cases "covered rs = {}")
  case True
  from rolling_no_days[OF assms(1) True] max_days_bounds(1)[OF assms(2)]
  show ?thesis by (simp add: no_window_def)
next
  case False
  with assms(3) have ne': "covered rs' \<noteq> {}" by auto
  from rolling_set_spec[OF assms(1) False] obtain ws we where
    rr: "max_days_365 (rolling_result r) = int (card (covered rs \<inter> {ws..we}))"
    and w: "ws \<in> covered rs" "we \<in> covered rs" "ws \<le> we" "we - ws \<le> 364"
    by force
  from rolling_set_spec[OF assms(2) ne'] obtain ws' we' where
    rr': "max_days_365 (rolling_result r') = int (card (covered rs' \<inter> {ws'..we'}))"
    and ub: "\<forall>a b. a \<in> covered rs' \<and> b \<in> covered rs' \<and> a \<le> b \<and> b - a \<le> 364 \<longrightarrow>
                  int (card (covered rs' \<inter> {a..b})) \<le> int (card (covered rs' \<inter> {ws'..we'}))"
    by force
  from w assms(3) have "int (card (covered rs' \<inter> {ws..we})) \<le> int (card (covered rs' \<inter> {ws'..we'}))"
    using ub by blast
  moreover have "card (covered rs \<inter> {ws..we}) \<le> card (covered rs' \<inter> {ws..we})"
    using assms(3) by (intro card_mono) auto
  ultimately show ?thesis using rr rr' by simp
qed

lemma covered_single: "covered [(s, e)] = {s..e}"
  by (simp add: covered_def)

section \<open>The claims\<close>

text \<open>
  C1. For a target year the \<open>date\<close> constructor accepts, the engine returns a result; the
  sequence \<open>all_days\<close> the code scans is sorted, has no duplicates, holds exactly the days
  covered by the valid intervals, and is the reference sequence \<open>D\<close>; and the reported
  \<open>max_days_365\<close> is the reference maximum of \<open>j - i + 1\<close> over the index pairs
  \<open>i \<le> j < n\<close> with \<open>D[j] - D[i] \<le> 364\<close> (0 when there is no covered day).
\<close>
theorem rolling_maximum_is_reference:
  assumes "year_ok y"
  shows "\<exists>r. compute y rs = Inr r
          \<and> sorted (sorted_set (expand_days (valid_intervals (ranges r))))
          \<and> distinct (sorted_set (expand_days (valid_intervals (ranges r))))
          \<and> set (sorted_set (expand_days (valid_intervals (ranges r)))) = covered rs
          \<and> sorted_set (expand_days (valid_intervals (ranges r))) = covered_day_sequence rs
          \<and> max_days_365 (rolling_result r) = reference_max_days (covered_day_sequence rs)"
proof -
  from assms obtain r where r: "compute y rs = Inr r"
    using compute_Inr_iff by blast
  define D where "D = covered_day_sequence rs"
  have code: "sorted_set (expand_days (valid_intervals (ranges r))) = D"
    unfolding D_def by (rule code_all_days[OF r])
  have "max_days_365 (rolling_result r) = reference_max_days D"
  proof (cases "covered rs = {}")
    case True
    then have "D = []" by (simp add: D_def covered_day_sequence_def)
    with rolling_no_days[OF r True] show ?thesis
      by (simp add: reference_max_days_def no_window_def)
  next
    case False
    then have ne: "D \<noteq> []"
      using set_covered_day_sequence[of rs] unfolding D_def by auto
    let ?P = "{(i, j) \<in> {0..<length D} \<times> {0..<length D}. i \<le> j \<and> D ! j - D ! i \<le> 364}"
    let ?S = "(\<lambda>(i, j). int (j - i + 1)) ` ?P"
    from rolling_index_spec[OF r False] obtain i j where
      ij: "i \<le> j" "j < length D" "D ! j - D ! i \<le> 364"
      and rr: "max_days_365 (rolling_result r) = int (j - i + 1)"
      and bnd: "bounds_from D (length D) (int (j - i + 1))"
      unfolding D_def by force
    have fin: "finite ?S" by (intro finite_imageI finite_subset[of ?P "{0..<length D} \<times> {0..<length D}"]) auto
    have "(i, j) \<in> ?P" using ij by simp
    then have mem: "int (j - i + 1) \<in> ?S" by (rule rev_image_eqI) simp
    have ub: "x \<le> int (j - i + 1)" if "x \<in> ?S" for x
    proof -
      from that obtain i0 j0 where "x = int (j0 - i0 + 1)" "i0 \<le> j0" "j0 < length D"
        "D ! j0 - D ! i0 \<le> 364" by auto
      with bnd show ?thesis unfolding bounds_from_def by auto
    qed
    have "Max ?S = int (j - i + 1)"
      by (rule Max_eqI[OF fin ub mem])
    with ne rr show ?thesis by (simp add: reference_max_days_def)
  qed
  with r code show ?thesis
    unfolding D_def
    by (intro exI[of _ r])
       (simp add: sorted_covered_day_sequence distinct_covered_day_sequence set_covered_day_sequence)
qed

theorem rolling_maximum_is_reference_witness:
  "year_ok 2024
   \<and> (\<exists>r. compute 2024 [(738888, 738890), (738889, 738891)] = Inr r
          \<and> sorted (sorted_set (expand_days (valid_intervals (ranges r))))
          \<and> distinct (sorted_set (expand_days (valid_intervals (ranges r))))
          \<and> set (sorted_set (expand_days (valid_intervals (ranges r))))
               = covered [(738888, 738890), (738889, 738891)]
          \<and> sorted_set (expand_days (valid_intervals (ranges r)))
               = covered_day_sequence [(738888, 738890), (738889, 738891)]
          \<and> max_days_365 (rolling_result r)
               = reference_max_days (covered_day_sequence [(738888, 738890), (738889, 738891)]))"
  using rolling_maximum_is_reference[OF year_ok_2024, of "[(738888, 738890), (738889, 738891)]"]
    year_ok_2024 by blast

text \<open>
  C2. For a target year the \<open>date\<close> constructor accepts, the engine returns a result in which
  the row of every valid interval has \<open>days_in_year\<close> equal to 0 when
  \<open>max start (Jan 1)\<close> exceeds \<open>min end (Dec 31)\<close> and to their inclusive distance
  otherwise, and \<open>total_days\<close> is the sum of the rows' \<open>days_in_year\<close>, that is the sum of
  the contributions of the valid intervals. For the single range 2024-12-20 to 2025-01-10
  the annual days are 12 for 2024 and 10 for 2025, and the stay length is 22.
\<close>
theorem annual_contribution:
  "(year_ok y \<longrightarrow>
      (\<exists>r year_start year_end.
          date_ymd y 1 1 = Inr year_start \<and> date_ymd y 12 31 = Inr year_end
        \<and> compute y rs = Inr r \<and> length (trip_data (ranges r)) = length rs
        \<and> (\<forall>k < length rs. fst (rs ! k) \<le> snd (rs ! k) \<longrightarrow>
              days_in_year (trip_data (ranges r) ! k) =
                (let effective_start = max (fst (rs ! k)) year_start;
                     effective_end = min (snd (rs ! k)) year_end
                 in if effective_start > effective_end then 0
                    else effective_end - effective_start + 1))
        \<and> total_days r = sum_list (map days_in_year (trip_data (ranges r)))
        \<and> total_days r = sum_list (map (clip_days y) (filter valid_range rs))))
   \<and> (\<exists>a b r24 r25.
          date_ymd 2024 12 20 = Inr a \<and> date_ymd 2025 1 10 = Inr b
        \<and> compute 2024 [(a, b)] = Inr r24 \<and> compute 2025 [(a, b)] = Inr r25
        \<and> map days_in_year (trip_data (ranges r24)) = [12] \<and> total_days r24 = 12
        \<and> map days_in_year (trip_data (ranges r25)) = [10] \<and> total_days r25 = 10
        \<and> map stay_length (trip_data (ranges r24)) = [22]
        \<and> map stay_length (trip_data (ranges r25)) = [22])"
proof (intro conjI impI)
  assume ok: "year_ok y"
  then obtain r where r: "compute y rs = Inr r"
    using compute_Inr_iff by blast
  have rows: "\<forall>k < length rs. fst (rs ! k) \<le> snd (rs ! k) \<longrightarrow>
      days_in_year (trip_data (ranges r) ! k) =
        (let effective_start = max (fst (rs ! k)) (ymd2ord y 1 1);
             effective_end = min (snd (rs ! k)) (ymd2ord y 12 31)
         in if effective_start > effective_end then 0
            else effective_end - effective_start + 1)"
    by (simp add: trip_data_nth[OF r] row_of_def valid_range_def clip_days_def not_less)
  from ok have "date_ymd y 1 1 = Inr (ymd2ord y 1 1)" "date_ymd y 12 31 = Inr (ymd2ord y 12 31)"
    by (simp_all add: date_ymd_jan1 date_ymd_dec31)
  with r rows trip_data_length[OF r] compute_Inr_D(2)[OF r] total_days_eq[OF r]
  show "\<exists>r year_start year_end.
          date_ymd y 1 1 = Inr year_start \<and> date_ymd y 12 31 = Inr year_end
        \<and> compute y rs = Inr r \<and> length (trip_data (ranges r)) = length rs
        \<and> (\<forall>k < length rs. fst (rs ! k) \<le> snd (rs ! k) \<longrightarrow>
              days_in_year (trip_data (ranges r) ! k) =
                (let effective_start = max (fst (rs ! k)) year_start;
                     effective_end = min (snd (rs ! k)) year_end
                 in if effective_start > effective_end then 0
                    else effective_end - effective_start + 1))
        \<and> total_days r = sum_list (map days_in_year (trip_data (ranges r)))
        \<and> total_days r = sum_list (map (clip_days y) (filter valid_range rs))"
    by blast
next
  obtain r24 where r24: "compute 2024 [(739240, 739261)] = Inr r24"
    using compute_Inr_iff year_ok_2024 by blast
  obtain r25 where r25: "compute 2025 [(739240, 739261)] = Inr r25"
    using compute_Inr_iff year_ok_2025 by blast
  have "map days_in_year (trip_data (ranges r24)) = [12]"
       "map stay_length (trip_data (ranges r24)) = [22]"
    by (simp_all add: compute_single_row[OF r24] row_of_def valid_range_def clip_days_def year_2024)
  moreover have "map days_in_year (trip_data (ranges r25)) = [10]"
       "map stay_length (trip_data (ranges r25)) = [22]"
    by (simp_all add: compute_single_row[OF r25] row_of_def valid_range_def clip_days_def year_2025)
  moreover have "total_days r24 = 12"
    by (simp add: total_days_eq[OF r24] valid_range_def clip_days_def year_2024)
  moreover have "total_days r25 = 10"
    by (simp add: total_days_eq[OF r25] valid_range_def clip_days_def year_2025)
  ultimately show "\<exists>a b r24 r25.
          date_ymd 2024 12 20 = Inr a \<and> date_ymd 2025 1 10 = Inr b
        \<and> compute 2024 [(a, b)] = Inr r24 \<and> compute 2025 [(a, b)] = Inr r25
        \<and> map days_in_year (trip_data (ranges r24)) = [12] \<and> total_days r24 = 12
        \<and> map days_in_year (trip_data (ranges r25)) = [10] \<and> total_days r25 = 10
        \<and> map stay_length (trip_data (ranges r24)) = [22]
        \<and> map stay_length (trip_data (ranges r25)) = [22]"
    using scenario_dates r24 r25
    by (intro exI[of _ 739240] exI[of _ 739261] exI[of _ r24] exI[of _ r25]) simp
qed

theorem annual_contribution_witness:
  "year_ok 2024 \<and> (0::nat) < length [(739240::int, 739261::int)]
     \<and> fst ([(739240::int, 739261::int)] ! 0) \<le> snd ([(739240::int, 739261::int)] ! 0)
     \<and> (\<exists>r. compute 2024 [(739240, 739261)] = Inr r
            \<and> days_in_year (trip_data (ranges r) ! 0) = 12 \<and> total_days r = 12)"
proof -
  from annual_contribution[of 2024 "[(739240, 739261)]"] year_ok_2024
  obtain r year_start year_end where
    d: "date_ymd 2024 1 1 = Inr year_start" "date_ymd 2024 12 31 = Inr year_end"
    and r: "compute 2024 [(739240, 739261)] = Inr r"
    and rows: "\<forall>k < length [(739240::int, 739261::int)].
        fst ([(739240::int, 739261::int)] ! k) \<le> snd ([(739240::int, 739261::int)] ! k) \<longrightarrow>
        days_in_year (trip_data (ranges r) ! k) =
          (let effective_start = max (fst ([(739240::int, 739261::int)] ! k)) year_start;
               effective_end = min (snd ([(739240::int, 739261::int)] ! k)) year_end
           in if effective_start > effective_end then 0
              else effective_end - effective_start + 1)"
    and tot: "total_days r = sum_list (map (clip_days 2024) (filter valid_range [(739240, 739261)]))"
    by blast
  from d have ys: "year_start = 738886" "year_end = 739251"
    by (simp_all add: date_ymd_jan1 date_ymd_dec31 year_ok_2024 year_2024)
  from rows[rule_format, of 0] have "days_in_year (trip_data (ranges r) ! 0) = 12"
    by (simp add: ys)
  moreover from tot have "total_days r = 12"
    by (simp add: valid_range_def clip_days_def year_2024)
  ultimately show ?thesis using r year_ok_2024 by simp
qed

text \<open>
  C3. When processing the other ranges returns a result, so does processing them with a
  range whose end is before its start inserted at any position. The inserted range gets a
  row with stay length 0 and annual days 0 and an error flag; it is not among the valid
  intervals, and total annual days, longest single stay and the rolling result are those of
  the other ranges alone; the stay length, annual days and error flag of every other range
  are unchanged.
\<close>
theorem invalid_range_ignored:
  assumes "e < s" and "compute y (xs @ ys) = Inr r'"
  shows "\<exists>r. compute y (xs @ (s, e) # ys) = Inr r
        \<and> length (trip_data (ranges r)) = Suc (length (trip_data (ranges r')))
        \<and> stay_length (trip_data (ranges r) ! length xs) = 0
        \<and> days_in_year (trip_data (ranges r) ! length xs) = 0
        \<and> Suc (length xs) \<in> set (range_errors (ranges r))
        \<and> valid_intervals (ranges r) = valid_intervals (ranges r')
        \<and> total_days r = total_days r'
        \<and> longest_single_stay (ranges r) = longest_single_stay (ranges r')
        \<and> rolling_result r = rolling_result r'
        \<and> (\<forall>k < length xs.
              stay_length (trip_data (ranges r) ! k) = stay_length (trip_data (ranges r') ! k)
            \<and> days_in_year (trip_data (ranges r) ! k) = days_in_year (trip_data (ranges r') ! k)
            \<and> (Suc k \<in> set (range_errors (ranges r)) \<longleftrightarrow> Suc k \<in> set (range_errors (ranges r'))))
        \<and> (\<forall>k. length xs \<le> k \<and> k < length (xs @ ys) \<longrightarrow>
              stay_length (trip_data (ranges r) ! Suc k) = stay_length (trip_data (ranges r') ! k)
            \<and> days_in_year (trip_data (ranges r) ! Suc k) = days_in_year (trip_data (ranges r') ! k)
            \<and> (Suc (Suc k) \<in> set (range_errors (ranges r)) \<longleftrightarrow> Suc k \<in> set (range_errors (ranges r'))))"
proof -
  let ?rs = "xs @ (s, e) # ys"
  have inv: "\<not> valid_range (s, e)" using assms(1) by (simp add: valid_range_def)
  then have filt: "filter valid_range ?rs = filter valid_range (xs @ ys)" by simp
  with compute_Inr_D(4)[OF assms(2)] obtain r where r: "compute y ?rs = Inr r"
    using compute_Inr_iff[of y ?rs] by auto
  have cov: "covered ?rs = covered (xs @ ys)"
    using assms(1) by (simp add: covered_def)
  have len: "length (trip_data (ranges r)) = Suc (length (trip_data (ranges r')))"
    by (simp add: trip_data_length[OF r] trip_data_length[OF assms(2)])
  have at: "trip_data (ranges r) ! length xs = row_of y (length xs) (s, e)"
    using trip_data_nth[OF r, of "length xs"] by simp
  have before: "trip_data (ranges r) ! k = row_of y k (xs ! k)"
    "trip_data (ranges r') ! k = row_of y k (xs ! k)" if "k < length xs" for k
    using that trip_data_nth[OF r, of k] trip_data_nth[OF assms(2), of k]
    by (simp_all add: nth_append)
  have after: "trip_data (ranges r) ! Suc k = row_of y (Suc k) (ys ! (k - length xs))"
    "trip_data (ranges r') ! k = row_of y k (ys ! (k - length xs))"
    if "length xs \<le> k" "k < length (xs @ ys)" for k
    using that trip_data_nth[OF r, of "Suc k"] trip_data_nth[OF assms(2), of k]
    by (simp_all add: nth_append Suc_diff_le)
  have errs_before: "Suc k \<in> set (range_errors (ranges r)) \<longleftrightarrow> Suc k \<in> set (range_errors (ranges r'))"
    if "k < length xs" for k
    using that by (simp add: set_range_errors[OF r] set_range_errors[OF assms(2)] nth_append)
  have errs_after: "Suc (Suc k) \<in> set (range_errors (ranges r)) \<longleftrightarrow> Suc k \<in> set (range_errors (ranges r'))"
    if "length xs \<le> k" "k < length (xs @ ys)" for k
    using that by (simp add: set_range_errors[OF r] set_range_errors[OF assms(2)] nth_append Suc_diff_le)
  have err_at: "Suc (length xs) \<in> set (range_errors (ranges r))"
    using inv by (simp add: set_range_errors[OF r])
  have "valid_intervals (ranges r) = valid_intervals (ranges r')"
    by (simp add: compute_Inr_D(1)[OF r] compute_Inr_D(1)[OF assms(2)] loop_result_initial(2) inv)
  moreover have "total_days r = total_days r'"
    by (simp add: total_days_eq[OF r] total_days_eq[OF assms(2)] inv)
  moreover have "longest_single_stay (ranges r) = longest_single_stay (ranges r')"
    by (simp add: compute_Inr_D(1)[OF r] compute_Inr_D(1)[OF assms(2)] loop_result_initial(3) inv)
  moreover have "rolling_result r = rolling_result r'"
    by (rule rolling_result_cong[OF r assms(2) cov])
  moreover have "stay_length (trip_data (ranges r) ! length xs) = 0"
    "days_in_year (trip_data (ranges r) ! length xs) = 0"
    using inv by (simp_all add: at row_of_def)
  ultimately show ?thesis
    using r len err_at before after errs_before errs_after
    by (intro exI[of _ r]) (simp add: row_of_def)
qed

theorem invalid_range_ignored_witness:
  "(738899::int) < 738900
   \<and> (\<exists>r'. compute 2024 ([(738888, 738891)] @ [(738890, 738892)]) = Inr r'
      \<and> (\<exists>r. compute 2024 ([(738888, 738891)] @ (738900, 738899) # [(738890, 738892)]) = Inr r
            \<and> stay_length (trip_data (ranges r) ! length [(738888::int, 738891::int)]) = 0
            \<and> days_in_year (trip_data (ranges r) ! length [(738888::int, 738891::int)]) = 0
            \<and> Suc (length [(738888::int, 738891::int)]) \<in> set (range_errors (ranges r))
            \<and> valid_intervals (ranges r) = valid_intervals (ranges r')
            \<and> total_days r = total_days r'
            \<and> longest_single_stay (ranges r) = longest_single_stay (ranges r')
            \<and> rolling_result r = rolling_result r'))"
proof -
  have h: "(738899::int) < 738900" by simp
  obtain r' where r': "compute 2024 ([(738888, 738891)] @ [(738890, 738892)]) = Inr r'"
    using compute_Inr_iff year_ok_2024 by blast
  from invalid_range_ignored[OF h r'] h r' show ?thesis by blast
qed

text \<open>
  C4. For every valid interval (start \<open>\<le>\<close> end) at any position of the input, the row the
  engine reports for it has stay length \<open>(end - start).days + 1\<close>; in particular a range with
  start = end has stay length exactly 1. The target year is one the \<open>date\<close> constructor
  accepts, so the engine returns a result.
\<close>
theorem stay_length_inclusive:
  assumes "year_ok y" and "k < length rs" and "rs ! k = (s, e)" and "s \<le> e"
  shows "\<exists>r. compute y rs = Inr r \<and> length (trip_data (ranges r)) = length rs
           \<and> stay_length (trip_data (ranges r) ! k) = e - s + 1
           \<and> (s = e \<longrightarrow> stay_length (trip_data (ranges r) ! k) = 1)"
proof -
  from assms(1) obtain r where r: "compute y rs = Inr r"
    using compute_Inr_iff by blast
  have "valid_range (s, e)" using assms(4) by (simp add: valid_range_def)
  then have "stay_length (trip_data (ranges r) ! k) = e - s + 1"
    using trip_data_nth[OF r assms(2)] assms(3) by (simp add: row_of_def)
  with r trip_data_length[OF r] show ?thesis by auto
qed

theorem stay_length_inclusive_witness:
  "year_ok 2024 \<and> (0::nat) < length [(739240::int, 739240::int)]
     \<and> [(739240::int, 739240::int)] ! 0 = (739240, 739240) \<and> (739240::int) \<le> 739240
     \<and> (\<exists>r. compute 2024 [(739240, 739240)] = Inr r
           \<and> length (trip_data (ranges r)) = length [(739240::int, 739240::int)]
           \<and> stay_length (trip_data (ranges r) ! 0) = 739240 - 739240 + 1
           \<and> stay_length (trip_data (ranges r) ! 0) = 1)"
proof -
  have h: "year_ok 2024" by (simp add: year_ok_def MINYEAR_def MAXYEAR_def)
  from stay_length_inclusive[OF h, of 0 "[(739240, 739240)]" 739240 739240] h
  show ?thesis by simp
qed

text \<open>
  C5. When every supplied range has end before start (in particular when no range is
  supplied), the engine returns a result, for any target year: no valid interval, total
  annual days 0, longest single stay 0, rolling maximum 0 and no window bounds.
\<close>
theorem no_valid_interval_zero_results:
  assumes "\<forall>r \<in> set rs. snd r < fst r"
  shows "\<exists>r. compute y rs = Inr r \<and> valid_intervals (ranges r) = []
           \<and> total_days r = 0 \<and> longest_single_stay (ranges r) = 0
           \<and> max_days_365 (rolling_result r) = 0
           \<and> window_start (rolling_result r) = None \<and> window_end (rolling_result r) = None"
proof -
  from assms have nv: "filter valid_range rs = []"
    by (auto simp: filter_empty_conv valid_range_def)
  then obtain r where r: "compute y rs = Inr r"
    using compute_Inr_iff by blast
  from compute_Inr_D(3)[OF r] have "rolling_result r = no_window"
    by (simp add: covered_day_sequence_no_valid[OF nv] rolling_of_days_Nil)
  moreover have "total_days r = 0" by (simp add: total_days_eq[OF r] nv)
  moreover have "longest_single_stay (ranges r) = 0" "valid_intervals (ranges r) = []"
    by (simp_all add: compute_Inr_D(1)[OF r] loop_result_initial nv)
  ultimately show ?thesis using r by (simp add: no_window_def)
qed

theorem no_valid_interval_zero_results_witness:
  "(3::int) < 5 \<and> (2::int) < 10
   \<and> (\<exists>r. compute 2024 [(5, 3), (10, 2)] = Inr r \<and> valid_intervals (ranges r) = []
           \<and> total_days r = 0 \<and> longest_single_stay (ranges r) = 0
           \<and> max_days_365 (rolling_result r) = 0
           \<and> window_start (rolling_result r) = None \<and> window_end (rolling_result r) = None)"
proof -
  have h: "\<forall>r \<in> set [(5::int, 3::int), (10, 2)]. snd r < fst r" by simp
  from no_valid_interval_zero_results[OF h, of 2024] show ?thesis by simp
qed

text \<open>
  C6. When the engine returns a result for an input, it returns one for every permutation
  of that input, with the same total annual days, the same longest single stay and the same
  rolling result (maximum and both window bounds).
\<close>
theorem order_invariance:
  assumes "compute y rs = Inr r" and "mset rs' = mset rs"
  shows "\<exists>r'. compute y rs' = Inr r' \<and> total_days r' = total_days r
            \<and> longest_single_stay (ranges r') = longest_single_stay (ranges r)
            \<and> rolling_result r' = rolling_result r"
proof -
  from assms(2) have sets: "set rs' = set rs" by (rule mset_eq_setD)
  then have "filter valid_range rs' = [] \<longleftrightarrow> filter valid_range rs = []"
    by (simp add: filter_empty_conv)
  with compute_Inr_D(4)[OF assms(1)] obtain r' where r': "compute y rs' = Inr r'"
    using compute_Inr_iff by blast
  have "total_days r' = total_days r"
    by (simp add: total_days_eq[OF r'] total_days_eq[OF assms(1)] total_mset[OF assms(2)])
  moreover have "longest_single_stay (ranges r') = longest_single_stay (ranges r)"
    by (simp add: longest_eq[OF r'] longest_eq[OF assms(1)] sets)
  moreover have "rolling_result r' = rolling_result r"
    by (rule rolling_result_cong[OF r' assms(1) covered_set_cong[OF sets]])
  ultimately show ?thesis using r' by blast
qed

theorem order_invariance_witness:
  "(\<exists>r. compute 2024 [(738890, 738892), (738900, 738899), (738888, 738891)] = Inr r
        \<and> mset [(738888::int, 738891::int), (738890, 738892), (738900, 738899)]
            = mset [(738890, 738892), (738900, 738899), (738888, 738891)]
        \<and> (\<exists>r'. compute 2024 [(738888, 738891), (738890, 738892), (738900, 738899)] = Inr r'
              \<and> total_days r' = total_days r
              \<and> longest_single_stay (ranges r') = longest_single_stay (ranges r)
              \<and> rolling_result r' = rolling_result r))"
proof -
  have "year_ok 2024" by (simp add: year_ok_def MINYEAR_def MAXYEAR_def)
  then obtain r where r: "compute 2024 [(738890, 738892), (738900, 738899), (738888, 738891)] = Inr r"
    using compute_Inr_iff by blast
  have m: "mset [(738888::int, 738891::int), (738890, 738892), (738900, 738899)]
            = mset [(738890, 738892), (738900, 738899), (738888, 738891)]"
    by (simp add: add_mset_commute)
  from order_invariance[OF r m] r m show ?thesis by blast
qed

text \<open>
  C7. For a target year the \<open>date\<close> constructor accepts: the input with two copies of a
  valid range has the same rolling result as the input with one copy, and its rolling
  maximum is at most the number of days of the range; and any two inputs that cover the
  same set of days have the same rolling maximum.
\<close>
theorem overlap_dedup:
  assumes "year_ok y"
  shows "(s \<le> e \<longrightarrow>
           (\<exists>r1 r2. compute y [(s, e)] = Inr r1 \<and> compute y [(s, e), (s, e)] = Inr r2
              \<and> max_days_365 (rolling_result r2) = max_days_365 (rolling_result r1)
              \<and> rolling_result r2 = rolling_result r1
              \<and> max_days_365 (rolling_result r2) \<le> e - s + 1))
       \<and> (covered rs = covered rs' \<longrightarrow>
           (\<exists>r r'. compute y rs = Inr r \<and> compute y rs' = Inr r'
              \<and> max_days_365 (rolling_result r') = max_days_365 (rolling_result r)))"
proof (intro conjI impI)
  assume se: "s \<le> e"
  from assms obtain r1 r2 where r1: "compute y [(s, e)] = Inr r1"
    and r2: "compute y [(s, e), (s, e)] = Inr r2"
    using compute_Inr_iff by blast
  have cov: "covered [(s, e), (s, e)] = covered [(s, e)]"
    by (simp add: covered_def)
  have eq: "rolling_result r2 = rolling_result r1"
    by (rule rolling_result_cong[OF r2 r1 cov])
  have "max_days_365 (rolling_result r1) \<le> int (card (covered [(s, e)]))"
    by (rule max_days_bounds(3)[OF r1])
  with se have "max_days_365 (rolling_result r1) \<le> e - s + 1"
    by (simp add: covered_single)
  with r1 r2 eq show "\<exists>r1 r2. compute y [(s, e)] = Inr r1 \<and> compute y [(s, e), (s, e)] = Inr r2
              \<and> max_days_365 (rolling_result r2) = max_days_365 (rolling_result r1)
              \<and> rolling_result r2 = rolling_result r1
              \<and> max_days_365 (rolling_result r2) \<le> e - s + 1"
    by (intro exI[of _ r1] exI[of _ r2]) simp
next
  assume cov: "covered rs = covered rs'"
  from assms obtain r r' where r: "compute y rs = Inr r" and r': "compute y rs' = Inr r'"
    using compute_Inr_iff by blast
  from rolling_result_cong[OF r r' cov] r r'
  show "\<exists>r r'. compute y rs = Inr r \<and> compute y rs' = Inr r'
              \<and> max_days_365 (rolling_result r') = max_days_365 (rolling_result r)"
    by (intro exI[of _ r] exI[of _ r']) simp
qed

theorem overlap_dedup_witness:
  "year_ok 2024 \<and> (738888::int) \<le> 738891
   \<and> covered [(738888, 738891), (738890, 738895)] = covered [(738888, 738895)]
   \<and> (\<exists>r1 r2. compute 2024 [(738888, 738891)] = Inr r1
         \<and> compute 2024 [(738888, 738891), (738888, 738891)] = Inr r2
         \<and> max_days_365 (rolling_result r2) = max_days_365 (rolling_result r1)
         \<and> max_days_365 (rolling_result r2) \<le> 738891 - 738888 + 1)
   \<and> (\<exists>r r'. compute 2024 [(738888, 738891), (738890, 738895)] = Inr r
         \<and> compute 2024 [(738888, 738895)] = Inr r'
         \<and> max_days_365 (rolling_result r') = max_days_365 (rolling_result r))"
proof -
  have h: "(738888::int) \<le> 738891" by simp
  have c: "covered [(738888, 738891), (738890, 738895)] = covered [(738888, 738895)]"
    by (auto simp: covered_def)
  from overlap_dedup[OF year_ok_2024, of 738888 738891
      "[(738888, 738891), (738890, 738895)]" "[(738888, 738895)]"] year_ok_2024 h c
  show ?thesis by blast
qed

text \<open>
  C8. For a target year the \<open>date\<close> constructor accepts and a valid range at any position
  of the input, the engine returns a result both for the input and for the input with that
  range's end moved one day later, and the total annual days, the longest single stay and
  the rolling maximum of the second are not smaller than those of the first.
\<close>
theorem extend_end_monotone:
  assumes "year_ok y" and "s \<le> e"
  shows "\<exists>r r'. compute y (xs @ (s, e) # ys) = Inr r
            \<and> compute y (xs @ (s, e + 1) # ys) = Inr r'
            \<and> total_days r \<le> total_days r'
            \<and> longest_single_stay (ranges r) \<le> longest_single_stay (ranges r')
            \<and> max_days_365 (rolling_result r) \<le> max_days_365 (rolling_result r')"
proof -
  let ?rs = "xs @ (s, e) # ys" and ?rs' = "xs @ (s, e + 1) # ys"
  from assms(1) obtain r r' where r: "compute y ?rs = Inr r" and r': "compute y ?rs' = Inr r'"
    using compute_Inr_iff by blast
  have v: "valid_range (s, e)" "valid_range (s, e + 1)"
    using assms(2) by (simp_all add: valid_range_def)
  have "total_days r \<le> total_days r'"
    using clip_days_mono[OF assms(2), of y]
    by (simp add: total_days_eq[OF r] total_days_eq[OF r'] v)
  moreover have "longest_single_stay (ranges r) \<le> longest_single_stay (ranges r')"
    unfolding longest_eq[OF r] longest_eq[OF r']
  proof (rule Max_insert0_mono)
    show "\<forall>a \<in> (\<lambda>r. snd r - fst r + 1) ` {r \<in> set ?rs. valid_range r}.
            \<exists>b \<in> (\<lambda>r. snd r - fst r + 1) ` {r \<in> set ?rs'. valid_range r}. a \<le> b"
    proof
      fix a assume "a \<in> (\<lambda>r. snd r - fst r + 1) ` {r \<in> set ?rs. valid_range r}"
      then obtain p where p: "p \<in> set ?rs" "valid_range p" "a = snd p - fst p + 1" by auto
      show "\<exists>b \<in> (\<lambda>r. snd r - fst r + 1) ` {r \<in> set ?rs'. valid_range r}. a \<le> b"
      proof (cases "p = (s, e)")
        case True
        have "e + 1 - s + 1 \<in> (\<lambda>r. snd r - fst r + 1) ` {r \<in> set ?rs'. valid_range r}"
          using v by (intro image_eqI[of _ _ "(s, e + 1)"]) simp_all
        moreover have "a \<le> e + 1 - s + 1" using p True by simp
        ultimately show ?thesis by blast
      next
        case False
        with p have "p \<in> {r \<in> set ?rs'. valid_range r}" by auto
        then have "a \<in> (\<lambda>r. snd r - fst r + 1) ` {r \<in> set ?rs'. valid_range r}"
          using p(3) by (intro image_eqI[of _ _ p])
        then show ?thesis by blast
      qed
    qed
  qed simp_all
  moreover have "covered ?rs \<subseteq> covered ?rs'"
    by (auto simp: covered_def)
  then have "max_days_365 (rolling_result r) \<le> max_days_365 (rolling_result r')"
    by (rule max_days_mono[OF r r'])
  ultimately show ?thesis using r r' by blast
qed

theorem extend_end_monotone_witness:
  "year_ok 2024 \<and> (739240::int) \<le> 739250
   \<and> (\<exists>r r'. compute 2024 ([(738888, 738890)] @ (739240, 739250) # [(5, 3)]) = Inr r
            \<and> compute 2024 ([(738888, 738890)] @ (739240, 739250 + 1) # [(5, 3)]) = Inr r'
            \<and> total_days r \<le> total_days r'
            \<and> longest_single_stay (ranges r) \<le> longest_single_stay (ranges r')
            \<and> max_days_365 (rolling_result r) \<le> max_days_365 (rolling_result r'))"
proof -
  have h: "(739240::int) \<le> 739250" by simp
  from extend_end_monotone[OF year_ok_2024 h, of "[(738888, 738890)]" "[(5, 3)]"] year_ok_2024 h
  show ?thesis by blast
qed

text \<open>
  C9. For a target year the \<open>date\<close> constructor accepts and an input with at least one
  valid interval, the engine returns a result with both window bounds present; both are
  members of the deduplicated day sequence the code scans, the start is not after the end,
  they are at most 364 days apart, and \<open>max_days_365\<close> is the number of days of that
  sequence lying between them. For a single one-day interval the maximum is 1 and both
  bounds are that day.
\<close>
theorem window_bounds:
  "(year_ok y \<and> (\<exists>p \<in> set rs. fst p \<le> snd p) \<longrightarrow>
      (\<exists>r ws we. compute y rs = Inr r
         \<and> window_start (rolling_result r) = Some ws \<and> window_end (rolling_result r) = Some we
         \<and> ws \<in> set (sorted_set (expand_days (valid_intervals (ranges r))))
         \<and> we \<in> set (sorted_set (expand_days (valid_intervals (ranges r))))
         \<and> ws \<le> we \<and> we - ws \<le> 364
         \<and> max_days_365 (rolling_result r) =
             int (card {d \<in> set (sorted_set (expand_days (valid_intervals (ranges r)))).
                          ws \<le> d \<and> d \<le> we})))
   \<and> (year_ok y \<longrightarrow>
        (\<exists>r. compute y [(d, d)] = Inr r
           \<and> max_days_365 (rolling_result r) = 1
           \<and> window_start (rolling_result r) = Some d \<and> window_end (rolling_result r) = Some d))"
proof (intro conjI impI)
  assume a: "year_ok y \<and> (\<exists>p \<in> set rs. fst p \<le> snd p)"
  then obtain r where r: "compute y rs = Inr r"
    using compute_Inr_iff by blast
  from a have ne: "covered rs \<noteq> {}" using covered_nonempty by blast
  have D: "set (sorted_set (expand_days (valid_intervals (ranges r)))) = covered rs"
    by (simp add: code_all_days[OF r] set_covered_day_sequence)
  have win: "{d \<in> covered rs. ws \<le> d \<and> d \<le> we} = covered rs \<inter> {ws..we}" for ws we
    by auto
  from rolling_set_spec[OF r ne] obtain ws we where
    "rolling_result r = \<lparr>max_days_365 = int (card (covered rs \<inter> {ws..we})),
              window_start = Some ws, window_end = Some we\<rparr>"
    "ws \<in> covered rs" "we \<in> covered rs" "ws \<le> we" "we - ws \<le> 364"
    by blast
  with r show "\<exists>r ws we. compute y rs = Inr r
         \<and> window_start (rolling_result r) = Some ws \<and> window_end (rolling_result r) = Some we
         \<and> ws \<in> set (sorted_set (expand_days (valid_intervals (ranges r))))
         \<and> we \<in> set (sorted_set (expand_days (valid_intervals (ranges r))))
         \<and> ws \<le> we \<and> we - ws \<le> 364
         \<and> max_days_365 (rolling_result r) =
             int (card {d \<in> set (sorted_set (expand_days (valid_intervals (ranges r)))).
                          ws \<le> d \<and> d \<le> we})"
    by (intro exI[of _ r] exI[of _ ws] exI[of _ we]) (simp add: D win)
next
  assume ok: "year_ok y"
  then obtain r where r: "compute y [(d, d)] = Inr r"
    using compute_Inr_iff by blast
  have cov: "covered [(d, d)] = {d}" by (simp add: covered_def)
  from rolling_set_spec[OF r] cov obtain ws we where
    rr: "rolling_result r = \<lparr>max_days_365 = int (card ({d} \<inter> {ws..we})),
              window_start = Some ws, window_end = Some we\<rparr>"
    and "ws \<in> {d}" "we \<in> {d}"
    by auto
  then have "ws = d" "we = d" by simp_all
  with rr r show "\<exists>r. compute y [(d, d)] = Inr r
           \<and> max_days_365 (rolling_result r) = 1
           \<and> window_start (rolling_result r) = Some d \<and> window_end (rolling_result r) = Some d"
    by (intro exI[of _ r]) simp
qed

theorem window_bounds_witness:
  "(year_ok 2024 \<and> (738888::int, 738890::int) \<in> set [(738888, 738890)]
      \<and> fst (738888::int, 738890::int) \<le> snd (738888::int, 738890::int))
   \<and> (\<exists>r ws we. compute 2024 [(738888, 738890)] = Inr r
         \<and> window_start (rolling_result r) = Some ws \<and> window_end (rolling_result r) = Some we
         \<and> ws \<in> set (sorted_set (expand_days (valid_intervals (ranges r))))
         \<and> we \<in> set (sorted_set (expand_days (valid_intervals (ranges r))))
         \<and> ws \<le> we \<and> we - ws \<le> 364
         \<and> max_days_365 (rolling_result r) =
             int (card {d \<in> set (sorted_set (expand_days (valid_intervals (ranges r)))).
                          ws \<le> d \<and> d \<le> we}))
   \<and> (\<exists>r. compute 2024 [(738888, 738888)] = Inr r
           \<and> max_days_365 (rolling_result r) = 1
           \<and> window_start (rolling_result r) = Some 738888
           \<and> window_end (rolling_result r) = Some 738888)"
proof -
  have h: "year_ok 2024 \<and> (\<exists>p \<in> set [(738888::int, 738890::int)]. fst p \<le> snd p)"
    using year_ok_2024 by simp
  from window_bounds[of 2024 "[(738888, 738890)]" 738888] h year_ok_2024 show ?thesis
    by simp
qed

text \<open>
  C10. For a valid range lying inside the target year, the input with two copies of it has
  twice the total annual days of the input with one copy, which is the length of the range,
  while the rolling result is the same for both. For the whole of 2024 entered twice the
  total is 732, above the 366 days of that year, and the rolling maximum stays at most 365.
\<close>
theorem total_days_not_deduplicated:
  "(year_ok y \<and> s \<le> e \<and> ymd2ord y 1 1 \<le> s \<and> e \<le> ymd2ord y 12 31 \<longrightarrow>
      (\<exists>r1 r2. compute y [(s, e)] = Inr r1 \<and> compute y [(s, e), (s, e)] = Inr r2
          \<and> total_days r1 = e - s + 1 \<and> total_days r2 = 2 * total_days r1
          \<and> rolling_result r2 = rolling_result r1))
   \<and> (\<exists>a b r. date_ymd 2024 1 1 = Inr a \<and> date_ymd 2024 12 31 = Inr b \<and> b - a + 1 = 366
          \<and> compute 2024 [(a, b), (a, b)] = Inr r
          \<and> total_days r = 732 \<and> max_days_365 (rolling_result r) \<le> 365)"
proof (intro conjI impI)
  assume a: "year_ok y \<and> s \<le> e \<and> ymd2ord y 1 1 \<le> s \<and> e \<le> ymd2ord y 12 31"
  then obtain r1 r2 where r1: "compute y [(s, e)] = Inr r1"
    and r2: "compute y [(s, e), (s, e)] = Inr r2"
    using compute_Inr_iff by blast
  from a have v: "valid_range (s, e)" and c: "clip_days y (s, e) = e - s + 1"
    by (simp_all add: valid_range_def clip_days_def)
  have cov: "covered [(s, e), (s, e)] = covered [(s, e)]"
    by (simp add: covered_def)
  have "total_days r1 = e - s + 1" "total_days r2 = 2 * total_days r1"
    by (simp_all add: total_days_eq[OF r1] total_days_eq[OF r2] v c)
  moreover have "rolling_result r2 = rolling_result r1"
    by (rule rolling_result_cong[OF r2 r1 cov])
  ultimately show "\<exists>r1 r2. compute y [(s, e)] = Inr r1 \<and> compute y [(s, e), (s, e)] = Inr r2
          \<and> total_days r1 = e - s + 1 \<and> total_days r2 = 2 * total_days r1
          \<and> rolling_result r2 = rolling_result r1"
    using r1 r2 by (intro exI[of _ r1] exI[of _ r2]) simp
next
  obtain r where r: "compute 2024 [(738886, 739251), (738886, 739251)] = Inr r"
    using compute_Inr_iff year_ok_2024 by blast
  have "total_days r = 732"
    by (simp add: total_days_eq[OF r] valid_range_def clip_days_def year_2024)
  moreover have "date_ymd 2024 1 1 = Inr 738886" "date_ymd 2024 12 31 = Inr 739251"
    by (simp_all add: date_ymd_jan1 date_ymd_dec31 year_ok_2024 year_2024)
  ultimately show "\<exists>a b r. date_ymd 2024 1 1 = Inr a \<and> date_ymd 2024 12 31 = Inr b \<and> b - a + 1 = 366
          \<and> compute 2024 [(a, b), (a, b)] = Inr r
          \<and> total_days r = 732 \<and> max_days_365 (rolling_result r) \<le> 365"
    using r max_days_bounds(2)[OF r]
    by (intro exI[of _ 738886] exI[of _ 739251] exI[of _ r]) simp
qed

theorem total_days_not_deduplicated_witness:
  "(year_ok 2024 \<and> (738888::int) \<le> 738891 \<and> ymd2ord 2024 1 1 \<le> 738888
      \<and> 738891 \<le> ymd2ord 2024 12 31)
   \<and> (\<exists>r1 r2. compute 2024 [(738888, 738891)] = Inr r1
          \<and> compute 2024 [(738888, 738891), (738888, 738891)] = Inr r2
          \<and> total_days r1 = 738891 - 738888 + 1 \<and> total_days r2 = 2 * total_days r1
          \<and> rolling_result r2 = rolling_result r1)"
proof -
  have h: "year_ok 2024 \<and> (738888::int) \<le> 738891 \<and> ymd2ord 2024 1 1 \<le> 738888
      \<and> 738891 \<le> ymd2ord 2024 12 31"
    by (simp add: year_ok_2024 year_2024)
  from total_days_not_deduplicated[of 2024 738888 738891] h show ?thesis by blast
qed

end
